theory Spec2Isabelle
  imports Main "HOL-Library.Monad_Syntax" "HOL-Library.Multiset"
begin

section \<open>Values of the program\<close>

text \<open>
  Vertex identifiers are strings. The value \<open>undefined\<close> is part of the model, because
  \<open>Map.prototype.get\<close> answers \<open>undefined\<close> for a key that was never set, and the
  code goes on computing with that answer.
\<close>

datatype vertex = Undefined | Str string

text \<open>
  Numbers are the integer-valued numbers (on which the arithmetic of the program,
  one subtraction and a running sum, is exact) and \<open>NaN\<close>. A property that is absent
  from an object reads as \<open>undefined\<close>, which is \<open>None\<close> below; in the arithmetic
  of the program it is converted to \<open>NaN\<close>.
\<close>

datatype jsnum = Num int | NaN

fun to_number :: "jsnum option \<Rightarrow> jsnum" where
  "to_number None = NaN"
| "to_number (Some n) = n"

fun js_add :: "jsnum \<Rightarrow> jsnum \<Rightarrow> jsnum" where
  "js_add (Num a) (Num b) = Num (a + b)"
| "js_add _ _ = NaN"

fun js_sub :: "jsnum \<Rightarrow> jsnum \<Rightarrow> jsnum" where
  "js_sub (Num a) (Num b) = Num (a - b)"
| "js_sub _ _ = NaN"

fun js_lt :: "jsnum \<Rightarrow> jsnum \<Rightarrow> bool" where
  "js_lt (Num a) (Num b) = (a < b)"
| "js_lt _ _ = False"

record edge =
  u :: vertex
  v :: vertex
  weight :: "jsnum option"

section \<open>Disjoint Set (Union-Find)\<close>

record DisjointSet =
  parent :: "vertex \<rightharpoonup> vertex"
  rank :: "vertex \<rightharpoonup> jsnum"

text \<open>\<open>this.parent.get(x)\<close>: the stored value, or \<open>undefined\<close> for a missing key.\<close>

definition parent_get :: "DisjointSet \<Rightarrow> vertex \<Rightarrow> vertex" where
  "parent_get ds x = (case parent ds x of None \<Rightarrow> Undefined | Some y \<Rightarrow> y)"

definition parent_set :: "vertex \<Rightarrow> vertex \<Rightarrow> DisjointSet \<Rightarrow> DisjointSet" where
  "parent_set x y ds = ds\<lparr>parent := (parent ds)(x \<mapsto> y)\<rparr>"

definition rank_set :: "vertex \<Rightarrow> jsnum \<Rightarrow> DisjointSet \<Rightarrow> DisjointSet" where
  "rank_set x n ds = ds\<lparr>rank := (rank ds)(x \<mapsto> n)\<rparr>"

text \<open>The constructor: every element becomes its own parent, with rank 0.\<close>

definition DisjointSet_new :: "vertex list \<Rightarrow> DisjointSet" where
  "DisjointSet_new elements =
     fold (\<lambda>e ds. rank_set e (Num 0) (parent_set e e ds)) elements
       \<lparr>parent = Map.empty, rank = Map.empty\<rparr>"

text \<open>
  \<open>find(x)\<close> calls itself on the parent of \<open>x\<close> and then stores the answer as the new
  parent of \<open>x\<close>. A parent chain that never reaches a vertex that is its own parent
  makes it run forever: that is the value \<open>None\<close>.
\<close>

partial_function (option) DisjointSet_find ::
  "DisjointSet \<Rightarrow> vertex \<Rightarrow> (vertex \<times> DisjointSet) option" where
  "DisjointSet_find ds x =
     (if parent_get ds x \<noteq> x
      then do {
        (r, ds1) \<leftarrow> DisjointSet_find ds (parent_get ds x);
        let ds2 = parent_set x r ds1;
        Some (parent_get ds2 x, ds2)
      }
      else Some (parent_get ds x, ds))"

definition DisjointSet_union ::
  "DisjointSet \<Rightarrow> vertex \<Rightarrow> vertex \<Rightarrow> (bool \<times> DisjointSet) option" where
  "DisjointSet_union ds x y =
     do {
       (rootX, ds1) \<leftarrow> DisjointSet_find ds x;
       (rootY, ds2) \<leftarrow> DisjointSet_find ds1 y;
       if rootX = rootY then Some (False, ds2)
       else
         let rankX = rank ds2 rootX; rankY = rank ds2 rootY in
         if js_lt (to_number rankX) (to_number rankY)
         then Some (True, parent_set rootX rootY ds2)
         else if js_lt (to_number rankY) (to_number rankX)
         then Some (True, parent_set rootY rootX ds2)
         else Some (True, rank_set rootX (js_add (to_number rankX) (Num 1))
                            (parent_set rootY rootX ds2))
     }"

section \<open>Kruskal's MST\<close>

text \<open>The comparison function \<open>(a, b) => a.weight - b.weight\<close>.\<close>

definition compareFn :: "edge \<Rightarrow> edge \<Rightarrow> jsnum" where
  "compareFn a b = js_sub (to_number (weight a)) (to_number (weight b))"

text \<open>
  \<open>Array.prototype.sort\<close> is a stable sort that reads a comparison result \<open>NaN\<close> as
  \<open>+0\<close>. It is modelled by insertion from the right: an element moves behind the
  elements that followed it only while the comparison says it is strictly greater.
  When the comparison function is not a consistent order (some weight is \<open>NaN\<close>), the
  language leaves the resulting order to the engine, and this is one such order.
\<close>

fun js_positive :: "jsnum \<Rightarrow> bool" where
  "js_positive (Num k) = (0 < k)"
| "js_positive NaN = False"

fun sort_insert :: "(edge \<Rightarrow> edge \<Rightarrow> jsnum) \<Rightarrow> edge \<Rightarrow> edge list \<Rightarrow> edge list" where
  "sort_insert cmp x [] = [x]"
| "sort_insert cmp x (y # ys) =
     (if js_positive (cmp x y) then y # sort_insert cmp x ys else x # y # ys)"

definition js_sort :: "(edge \<Rightarrow> edge \<Rightarrow> jsnum) \<Rightarrow> edge list \<Rightarrow> edge list" where
  "js_sort cmp xs = foldr (sort_insert cmp) xs []"

record mst_result =
  mstEdges :: "edge list"
  totalCost :: jsnum

text \<open>The loop \<open>for (const edge of sortedEdges)\<close>, with the state it updates.\<close>

fun scan_edges ::
  "DisjointSet \<Rightarrow> edge list \<Rightarrow> edge list \<Rightarrow> jsnum \<Rightarrow> mst_result option" where
  "scan_edges ds [] mst cost = Some \<lparr>mstEdges = mst, totalCost = cost\<rparr>"
| "scan_edges ds (e # es) mst cost =
     (case DisjointSet_union ds (u e) (v e) of
        None \<Rightarrow> None
      | Some (True, ds') \<Rightarrow> scan_edges ds' es (mst @ [e]) (js_add cost (to_number (weight e)))
      | Some (False, ds') \<Rightarrow> scan_edges ds' es mst cost)"

definition kruskalMST :: "vertex list \<Rightarrow> edge list \<Rightarrow> mst_result option" where
  "kruskalMST vertices edges =
     scan_edges (DisjointSet_new vertices) (js_sort compareFn edges) [] (Num 0)"

section \<open>Notions used to state the properties\<close>

subsection \<open>Roots and sets of the disjoint-set forest\<close>

text \<open>
  \<open>root_of p x r\<close>: following the parent links \<open>p\<close> from \<open>x\<close> ends at \<open>r\<close>, a vertex that
  is its own parent. The links of a state are \<open>parent_get ds\<close>, so a vertex without an entry
  in the map has the parent \<open>undefined\<close>, as the code reads it.
\<close>

inductive root_of :: "('a \<Rightarrow> 'a) \<Rightarrow> 'a \<Rightarrow> 'a \<Rightarrow> bool" for p where
  at_root: "p x = x \<Longrightarrow> root_of p x x"
| via_parent: "p x \<noteq> x \<Longrightarrow> root_of p (p x) r \<Longrightarrow> root_of p x r"

text \<open>The forest invariant: every chain of parent links ends at a root.\<close>

definition forest_inv :: "DisjointSet \<Rightarrow> bool" where
  "forest_inv ds \<longleftrightarrow> (\<forall>x. \<exists>r. root_of (parent_get ds) x r)"

text \<open>The logical partition: two vertices are in the same set when they have the same root.\<close>

definition same_set :: "DisjointSet \<Rightarrow> vertex \<Rightarrow> vertex \<Rightarrow> bool" where
  "same_set ds a b \<longleftrightarrow> (\<exists>r. root_of (parent_get ds) a r \<and> root_of (parent_get ds) b r)"

text \<open>
  The state that \<open>union\<close> leaves behind when the two roots differ (the three branches on
  the ranks), and the root that stays a root there.
\<close>

definition link_roots :: "DisjointSet \<Rightarrow> vertex \<Rightarrow> vertex \<Rightarrow> DisjointSet" where
  "link_roots ds rootX rootY =
     (if js_lt (to_number (rank ds rootX)) (to_number (rank ds rootY))
      then parent_set rootX rootY ds
      else if js_lt (to_number (rank ds rootY)) (to_number (rank ds rootX))
      then parent_set rootY rootX ds
      else rank_set rootX (js_add (to_number (rank ds rootX)) (Num 1))
             (parent_set rootY rootX ds))"

definition survivor :: "DisjointSet \<Rightarrow> vertex \<Rightarrow> vertex \<Rightarrow> vertex" where
  "survivor ds a b = (if js_lt (to_number (rank ds a)) (to_number (rank ds b)) then b else a)"


subsection \<open>The call depth of find\<close>





subsection \<open>The running sum of the weights\<close>

text \<open>\<open>totalCost += edge.weight\<close>, over a list of edges, starting from 0.\<close>

definition js_sum :: "edge list \<Rightarrow> jsnum" where
  "js_sum es = foldl (\<lambda>c e. js_add c (to_number (weight e))) (Num 0) es"

text \<open>The weight of an edge as an integer, for the edges whose weight is a number.\<close>

definition weight_int :: "edge \<Rightarrow> int" where
  "weight_int e = (case weight e of Some (Num k) \<Rightarrow> k | _ \<Rightarrow> 0)"

definition numeric :: "edge \<Rightarrow> bool" where
  "numeric e \<longleftrightarrow> (\<exists>k. weight e = Some (Num k))"

definition cost_of :: "edge list \<Rightarrow> int" where
  "cost_of es = sum_list (map weight_int es)"

subsection \<open>Example states and inputs\<close>

definition edge_of :: "string \<Rightarrow> string \<Rightarrow> int \<Rightarrow> edge" where
  "edge_of a b w = \<lparr>u = Str a, v = Str b, weight = Some (Num w)\<rparr>"

text \<open>
  Four vertices, and the states after \<open>union(A, B)\<close>, \<open>union(C, D)\<close>, \<open>union(B, D)\<close> and
  then \<open>union(D, D)\<close>.
\<close>

definition four :: DisjointSet where
  "four = DisjointSet_new [Str ''A'', Str ''B'', Str ''C'', Str ''D'']"

definition four_1 :: DisjointSet where
  "four_1 =
     \<lparr>parent = [Str ''A'' \<mapsto> Str ''A'', Str ''B'' \<mapsto> Str ''A'', Str ''C'' \<mapsto> Str ''C'',
                Str ''D'' \<mapsto> Str ''D''],
      rank = [Str ''A'' \<mapsto> Num 1, Str ''B'' \<mapsto> Num 0, Str ''C'' \<mapsto> Num 0, Str ''D'' \<mapsto> Num 0]\<rparr>"

definition four_2 :: DisjointSet where
  "four_2 =
     \<lparr>parent = [Str ''A'' \<mapsto> Str ''A'', Str ''B'' \<mapsto> Str ''A'', Str ''C'' \<mapsto> Str ''C'',
                Str ''D'' \<mapsto> Str ''C''],
      rank = [Str ''A'' \<mapsto> Num 1, Str ''B'' \<mapsto> Num 0, Str ''C'' \<mapsto> Num 1, Str ''D'' \<mapsto> Num 0]\<rparr>"

definition four_3 :: DisjointSet where
  "four_3 =
     \<lparr>parent = [Str ''A'' \<mapsto> Str ''A'', Str ''B'' \<mapsto> Str ''A'', Str ''C'' \<mapsto> Str ''A'',
                Str ''D'' \<mapsto> Str ''C''],
      rank = [Str ''A'' \<mapsto> Num 2, Str ''B'' \<mapsto> Num 0, Str ''C'' \<mapsto> Num 1, Str ''D'' \<mapsto> Num 0]\<rparr>"

definition four_4 :: DisjointSet where
  "four_4 =
     \<lparr>parent = [Str ''A'' \<mapsto> Str ''A'', Str ''B'' \<mapsto> Str ''A'', Str ''C'' \<mapsto> Str ''A'',
                Str ''D'' \<mapsto> Str ''A''],
      rank = [Str ''A'' \<mapsto> Num 2, Str ''B'' \<mapsto> Num 0, Str ''C'' \<mapsto> Num 1, Str ''D'' \<mapsto> Num 0]\<rparr>"


definition tie_edges :: "edge list" where
  "tie_edges = [edge_of ''A'' ''B'' 2, edge_of ''C'' ''D'' 1, edge_of ''A'' ''C'' 2, edge_of ''B'' ''D'' 1]"

definition tie_sorted :: "edge list" where
  "tie_sorted = [edge_of ''C'' ''D'' 1, edge_of ''B'' ''D'' 1, edge_of ''A'' ''B'' 2, edge_of ''A'' ''C'' 2]"

subsection \<open>The graph of an edge list\<close>

text \<open>
  Edges are undirected: \<open>conn F\<close> relates two vertices when a path of edges of \<open>F\<close>, walked
  in either direction, leads from one to the other (every vertex is related to itself).
\<close>

definition links :: "edge set \<Rightarrow> (vertex \<times> vertex) set" where
  "links F = (\<lambda>e. (u e, v e)) ` F"

definition conn :: "edge set \<Rightarrow> (vertex \<times> vertex) set" where
  "conn F = (links F \<union> (links F)\<inverse>)\<^sup>*"

text \<open>The number of connected components of the graph with the vertices \<open>V\<close> and the edges \<open>F\<close>.\<close>

definition component_of :: "vertex set \<Rightarrow> edge set \<Rightarrow> vertex \<Rightarrow> vertex set" where
  "component_of V F x = {y \<in> V. (x, y) \<in> conn F}"

definition components :: "vertex set \<Rightarrow> edge set \<Rightarrow> nat" where
  "components V F = card (component_of V F ` V)"

text \<open>
  An edge list is acyclic when no edge of it joins two vertices that the other edges of
  the list already connect (a list that holds an edge twice is not acyclic).
\<close>

definition acyclic_edges :: "edge list \<Rightarrow> bool" where
  "acyclic_edges F \<longleftrightarrow> (\<forall>xs e ys. F = xs @ e # ys \<longrightarrow> (u e, v e) \<notin> conn (set xs \<union> set ys))"

text \<open>The same, read from the head of the list: each edge is new to the edges behind it.\<close>

fun forest :: "edge list \<Rightarrow> bool" where
  "forest [] = True"
| "forest (e # F) = ((u e, v e) \<notin> conn (set F) \<and> forest F)"

text \<open>
  The choice that the loop makes, written on the graph: an edge is kept when its endpoints
  are not yet connected by the edges kept so far.
\<close>

fun greedy :: "edge list \<Rightarrow> edge list \<Rightarrow> edge list" where
  "greedy sel [] = sel"
| "greedy sel (e # es) =
     (if (u e, v e) \<in> conn (set sel) then greedy sel es else greedy (sel @ [e]) es)"

section \<open>The disjoint-set forest: find and union\<close>

lemma find_root: "parent_get ds x = x \<Longrightarrow> DisjointSet_find ds x = Some (x, ds)"
  by (subst DisjointSet_find.simps) simp

lemma find_step: "parent_get ds x \<noteq> x \<Longrightarrow> DisjointSet_find ds x =
   do { (r, ds1) \<leftarrow> DisjointSet_find ds (parent_get ds x);
        let ds2 = parent_set x r ds1;
        Some (parent_get ds2 x, ds2) }"
  by (subst DisjointSet_find.simps) simp

lemma parent_get_parent_set: "parent_get (parent_set x y ds) = (parent_get ds)(x := y)"
  by (auto simp: parent_get_def parent_set_def)

lemma parent_get_rank_set: "parent_get (rank_set x n ds) = parent_get ds"
  by (auto simp: parent_get_def rank_set_def)

lemma rank_parent_set: "rank (parent_set x y ds) = rank ds"
  by (simp add: parent_set_def)

lemma rank_rank_set: "rank (rank_set x n ds) = (rank ds)(x \<mapsto> n)"
  by (simp add: rank_set_def)

lemma root_of_fixed: "root_of p x r \<Longrightarrow> p r = r"
  by (induction rule: root_of.induct) auto

lemma root_of_unique: "root_of p x r \<Longrightarrow> root_of p x r' \<Longrightarrow> r' = r"
proof (induction arbitrary: r' rule: root_of.induct)
  case (at_root x)
  then show ?case by (auto elim: root_of.cases)
next
  case (via_parent x r)
  from via_parent.prems via_parent.hyps(1) have "root_of p (p x) r'"
    by (auto elim: root_of.cases)
  then show ?case by (rule via_parent.IH)
qed

lemma root_of_at_root: "p r = r \<Longrightarrow> root_of p r r' \<longleftrightarrow> r' = r"
  by (auto intro: root_of.at_root dest: root_of_unique[OF root_of.at_root])

lemma compress_keeps:
  assumes c: "\<And>y. p' y = p y \<or> root_of p y (p' y)"
  shows "root_of p y r \<Longrightarrow> root_of p' y r"
proof (induction rule: root_of.induct)
  case (at_root x)
  from c[of x] at_root have "p' x = x" by (auto simp: root_of_at_root)
  then show ?case by (rule root_of.at_root)
next
  case (via_parent x r)
  have fr: "p r = r" using via_parent.hyps(2) by (rule root_of_fixed)
  have xr: "root_of p x r" using via_parent.hyps by (auto intro: root_of.via_parent)
  then have "x \<noteq> r" using via_parent.hyps(1) fr by auto
  from c[of x] show ?case
  proof
    assume "p' x = p x"
    then show ?thesis using via_parent by (auto intro: root_of.via_parent)
  next
    assume "root_of p x (p' x)"
    then have e: "p' x = r" using xr by (auto dest: root_of_unique)
    from c[of r] fr have "p' r = r" by (auto simp: root_of_at_root)
    then have "root_of p' r r" by (rule root_of.at_root)
    then show ?thesis using e \<open>x \<noteq> r\<close> by (auto intro: root_of.via_parent)
  qed
qed

lemma compress_back:
  assumes c: "\<And>y. p' y = p y \<or> root_of p y (p' y)"
  shows "root_of p' y r \<Longrightarrow> root_of p y r"
proof (induction rule: root_of.induct)
  case (at_root x)
  from c[of x] at_root show ?case by (auto intro: root_of.at_root)
next
  case (via_parent x r)
  from c[of x] show ?case
  proof
    assume "p' x = p x"
    then show ?thesis using via_parent by (auto intro: root_of.via_parent)
  next
    assume a: "root_of p x (p' x)"
    then have "p (p' x) = p' x" by (rule root_of_fixed)
    then have "r = p' x" using via_parent.IH by (simp add: root_of_at_root)
    then show ?thesis using a by simp
  qed
qed

lemma link_root:
  assumes "p a = a" "p b = b" "a \<noteq> b"
  shows "root_of p z r \<Longrightarrow> root_of (p(a := b)) z (if r = a then b else r)"
proof (induction rule: root_of.induct)
  case (at_root x)
  show ?case
  proof (cases "x = a")
    case True
    have "root_of (p(a := b)) b b" using assms by (auto intro: root_of.at_root)
    then have "root_of (p(a := b)) a b" using assms by (auto intro: root_of.via_parent)
    then show ?thesis unfolding True by (simp only: refl if_True)
  next
    case False
    then show ?thesis using at_root by (auto intro: root_of.at_root)
  qed
next
  case (via_parent x r)
  then have "x \<noteq> a" using assms by auto
  then show ?case using via_parent by (auto intro: root_of.via_parent)
qed

lemma find_spec:
  "root_of (parent_get ds) x r \<Longrightarrow>
   \<exists>ds'. DisjointSet_find ds x = Some (r, ds') \<and> rank ds' = rank ds \<and>
     (\<forall>y. parent_get ds' y = parent_get ds y \<or> root_of (parent_get ds) y (parent_get ds' y)) \<and>
     (x \<noteq> r \<longrightarrow> parent ds' x = Some r) \<and> (x = r \<longrightarrow> ds' = ds)"
proof (induction rule: root_of.induct)
  case (at_root x)
  then show ?case by (simp add: find_root)
next
  case (via_parent x r)
  then obtain ds1 where f: "DisjointSet_find ds (parent_get ds x) = Some (r, ds1)"
    and rk: "rank ds1 = rank ds"
    and c: "\<And>y. parent_get ds1 y = parent_get ds y \<or> root_of (parent_get ds) y (parent_get ds1 y)"
    by blast
  have xr: "root_of (parent_get ds) x r"
    using via_parent.hyps by (auto intro: root_of.via_parent)
  have fr: "parent_get ds r = r" using xr by (rule root_of_fixed)
  let ?ds2 = "parent_set x r ds1"
  have "DisjointSet_find ds x = Some (r, ?ds2)"
    using via_parent.hyps(1) f by (simp add: find_step parent_get_parent_set)
  moreover have "rank ?ds2 = rank ds" using rk by (simp add: rank_parent_set)
  moreover have "parent_get ?ds2 y = parent_get ds y \<or> root_of (parent_get ds) y (parent_get ?ds2 y)" for y
    using c[of y] xr by (auto simp: parent_get_parent_set)
  moreover have "parent ?ds2 x = Some r" by (simp add: parent_set_def)
  moreover have "x \<noteq> r" using via_parent.hyps(1) fr by auto
  ultimately show ?case by blast
qed

lemma union_link:
  "DisjointSet_union ds x y =
     do { (rootX, ds1) \<leftarrow> DisjointSet_find ds x;
          (rootY, ds2) \<leftarrow> DisjointSet_find ds1 y;
          if rootX = rootY then Some (False, ds2)
          else Some (True, link_roots ds2 rootX rootY) }"
  unfolding DisjointSet_union_def link_roots_def Let_def
  by (intro arg_cong2[where f=Option.bind] refl ext) (auto split: prod.splits intro!: arg_cong2[where f=Option.bind])

lemma find_keeps_roots:
  assumes "root_of (parent_get ds) x r"
  obtains ds' where "DisjointSet_find ds x = Some (r, ds')" "rank ds' = rank ds"
    "\<And>z q. root_of (parent_get ds') z q \<longleftrightarrow> root_of (parent_get ds) z q"
    "x \<noteq> r \<Longrightarrow> parent ds' x = Some r" "x = r \<Longrightarrow> ds' = ds"
proof -
  from find_spec[OF assms] obtain ds' where f: "DisjointSet_find ds x = Some (r, ds')"
    and rk: "rank ds' = rank ds"
    and c: "\<And>y. parent_get ds' y = parent_get ds y \<or> root_of (parent_get ds) y (parent_get ds' y)"
    and e: "x \<noteq> r \<longrightarrow> parent ds' x = Some r" "x = r \<longrightarrow> ds' = ds"
    by blast
  have "root_of (parent_get ds') z q \<longleftrightarrow> root_of (parent_get ds) z q" for z q
    using compress_keeps[of "parent_get ds'" "parent_get ds", OF c]
      compress_back[of "parent_get ds'" "parent_get ds", OF c] by blast
  then show thesis using f rk e that by blast
qed

lemma forest_inv_cong:
  "(\<And>z q. root_of (parent_get ds') z q \<longleftrightarrow> root_of (parent_get ds) z q) \<Longrightarrow>
   forest_inv ds' = forest_inv ds"
  by (simp add: forest_inv_def)

lemma same_set_cong:
  "(\<And>z q. root_of (parent_get ds') z q \<longleftrightarrow> root_of (parent_get ds) z q) \<Longrightarrow>
   same_set ds' = same_set ds"
  by (simp add: same_set_def fun_eq_iff)

lemma parent_get_link_roots:
  "parent_get (link_roots ds a b) =
     (if js_lt (to_number (rank ds a)) (to_number (rank ds b))
      then (parent_get ds)(a := b) else (parent_get ds)(b := a))"
  by (simp add: link_roots_def parent_get_parent_set parent_get_rank_set)


lemma link_roots_root:
  assumes "forest_inv ds" "parent_get ds a = a" "parent_get ds b = b" "a \<noteq> b"
  shows "root_of (parent_get (link_roots ds a b)) z q \<longleftrightarrow>
         (\<exists>r. root_of (parent_get ds) z r \<and> q = (if r = a \<or> r = b then survivor ds a b else r))"
proof -
  let ?p = "parent_get ds" and ?p' = "parent_get (link_roots ds a b)"
  from assms(1) obtain r where r: "root_of ?p z r" unfolding forest_inv_def by blast
  have q: "root_of ?p' z (if r = a \<or> r = b then survivor ds a b else r)"
  proof (cases "js_lt (to_number (rank ds a)) (to_number (rank ds b))")
    case True
    then show ?thesis using link_root[OF assms(2,3,4) r]
      by (cases "r = a"; cases "r = b"; simp add: parent_get_link_roots survivor_def)
  next
    case False
    then show ?thesis using link_root[OF assms(3,2) assms(4)[symmetric] r]
      by (cases "r = a"; cases "r = b"; simp add: parent_get_link_roots survivor_def)
  qed
  have u: "root_of ?p z t \<longleftrightarrow> t = r" for t
    using r by (auto dest: root_of_unique)
  have "root_of ?p' z q \<longleftrightarrow> q = (if r = a \<or> r = b then survivor ds a b else r)"
    using q by (auto dest: root_of_unique)
  then show ?thesis by (simp add: u)
qed

lemma forest_inv_link_roots:
  assumes "forest_inv ds" "parent_get ds a = a" "parent_get ds b = b" "a \<noteq> b"
  shows "forest_inv (link_roots ds a b)"
  unfolding forest_inv_def
proof
  fix z
  from assms(1) obtain r where r: "root_of (parent_get ds) z r" unfolding forest_inv_def by blast
  show "\<exists>q. root_of (parent_get (link_roots ds a b)) z q"
    using link_root[OF assms(2,3,4) r] link_root[OF assms(3,2) assms(4)[symmetric] r]
    by (auto simp: parent_get_link_roots split: if_splits)
qed

lemma same_set_link_roots:
  assumes "forest_inv ds" "parent_get ds a = a" "parent_get ds b = b" "a \<noteq> b"
  shows "same_set (link_roots ds a b) z w \<longleftrightarrow>
         same_set ds z w \<or> (same_set ds z a \<and> same_set ds b w) \<or> (same_set ds z b \<and> same_set ds a w)"
proof -
  let ?p = "parent_get ds"
  from assms(1) obtain rz rw where r: "root_of ?p z rz" "root_of ?p w rw"
    unfolding forest_inv_def by blast
  have ra: "root_of ?p a q \<longleftrightarrow> q = a" "root_of ?p b q \<longleftrightarrow> q = b" for q
    using assms(2,3) by (simp_all add: root_of_at_root)
  have u: "root_of ?p z q \<longleftrightarrow> q = rz" "root_of ?p w q \<longleftrightarrow> q = rw" for q
    using r by (auto dest: root_of_unique)
  have s: "survivor ds a b = a \<or> survivor ds a b = b" by (simp add: survivor_def)
  have l: "same_set (link_roots ds a b) z w \<longleftrightarrow>
     (if rz = a \<or> rz = b then survivor ds a b else rz) = (if rw = a \<or> rw = b then survivor ds a b else rw)"
    unfolding same_set_def link_roots_root[OF assms] u by auto
  have o: "same_set ds z w \<longleftrightarrow> rz = rw" "same_set ds z a \<longleftrightarrow> rz = a" "same_set ds z b \<longleftrightarrow> rz = b"
    "same_set ds a w \<longleftrightarrow> rw = a" "same_set ds b w \<longleftrightarrow> rw = b"
    unfolding same_set_def u ra by auto
  show ?thesis unfolding l o using s assms(4) by (cases "rz = a"; cases "rz = b"; cases "rw = a"; cases "rw = b"; simp; metis)
qed

lemma union_result:
  assumes "root_of (parent_get ds) x rx" "root_of (parent_get ds) y ry"
  obtains ds2 where "rank ds2 = rank ds"
    "\<And>z q. root_of (parent_get ds2) z q \<longleftrightarrow> root_of (parent_get ds) z q"
    "DisjointSet_union ds x y =
       (if rx = ry then Some (False, ds2) else Some (True, link_roots ds2 rx ry))"
proof -
  from assms(1) obtain ds1 where 1: "DisjointSet_find ds x = Some (rx, ds1)" "rank ds1 = rank ds"
    "\<And>z q. root_of (parent_get ds1) z q \<longleftrightarrow> root_of (parent_get ds) z q"
    by (rule find_keeps_roots) blast
  from assms(2) have "root_of (parent_get ds1) y ry" by (simp add: 1(3))
  then obtain ds2 where 2: "DisjointSet_find ds1 y = Some (ry, ds2)" "rank ds2 = rank ds1"
    "\<And>z q. root_of (parent_get ds2) z q \<longleftrightarrow> root_of (parent_get ds1) z q"
    by (rule find_keeps_roots) blast
  have "DisjointSet_union ds x y =
       (if rx = ry then Some (False, ds2) else Some (True, link_roots ds2 rx ry))"
    by (simp add: union_link 1(1) 2(1))
  then show thesis using that[of ds2] 1(2,3) 2(2,3) by simp
qed

lemma same_set_root:
  "root_of (parent_get ds) x r \<Longrightarrow> same_set ds z r \<longleftrightarrow> same_set ds z x"
  "root_of (parent_get ds) x r \<Longrightarrow> same_set ds r z \<longleftrightarrow> same_set ds x z"
proof -
  assume a: "root_of (parent_get ds) x r"
  then have "parent_get ds r = r" by (rule root_of_fixed)
  then have "root_of (parent_get ds) r q \<longleftrightarrow> q = r" for q by (rule root_of_at_root)
  moreover have "root_of (parent_get ds) x q \<longleftrightarrow> q = r" for q
    using a by (auto dest: root_of_unique)
  ultimately show "same_set ds z r \<longleftrightarrow> same_set ds z x" "same_set ds r z \<longleftrightarrow> same_set ds x z"
    unfolding same_set_def by simp_all
qed

lemma same_set_trans: "same_set ds a b \<Longrightarrow> same_set ds b c \<Longrightarrow> same_set ds a c"
  unfolding same_set_def by (auto dest: root_of_unique)

lemma same_set_sym: "same_set ds a b \<Longrightarrow> same_set ds b a"
  unfolding same_set_def by auto

lemma same_set_refl: "forest_inv ds \<Longrightarrow> same_set ds a a"
  unfolding same_set_def forest_inv_def by auto

lemma union_spec:
  assumes "forest_inv ds"
  obtains b ds' where "DisjointSet_union ds x y = Some (b, ds')" "forest_inv ds'"
    "b \<longleftrightarrow> \<not> same_set ds x y"
    "\<And>z w. same_set ds' z w \<longleftrightarrow>
       same_set ds z w \<or> (same_set ds z x \<and> same_set ds y w) \<or> (same_set ds z y \<and> same_set ds x w)"
proof -
  let ?p = "parent_get ds"
  from assms obtain rx ry where r: "root_of ?p x rx" "root_of ?p y ry"
    unfolding forest_inv_def by blast
  from r obtain ds2 where 2: "rank ds2 = rank ds"
    "\<And>z q. root_of (parent_get ds2) z q \<longleftrightarrow> root_of ?p z q"
    "DisjointSet_union ds x y =
       (if rx = ry then Some (False, ds2) else Some (True, link_roots ds2 rx ry))"
    by (rule union_result) blast
  have f2: "forest_inv ds2" using assms forest_inv_cong[of ds2 ds, OF 2(2)] by simp
  have s2: "same_set ds2 = same_set ds" using 2(2) by (rule same_set_cong)
  have xy: "same_set ds x y \<longleftrightarrow> rx = ry"
    using r unfolding same_set_def by (auto dest: root_of_unique)
  show thesis
  proof (cases "rx = ry")
    case True
    have "same_set ds2 z w \<longleftrightarrow>
       same_set ds z w \<or> (same_set ds z x \<and> same_set ds y w) \<or> (same_set ds z y \<and> same_set ds x w)" for z w
      using True xy unfolding s2 by (blast intro: same_set_trans same_set_sym)
    then show ?thesis using that[of False ds2] 2(3) True f2 xy by simp
  next
    case False
    have fx: "parent_get ds2 rx = rx" "parent_get ds2 ry = ry"
      using r 2(2) by (auto dest: root_of_fixed)
    have "same_set (link_roots ds2 rx ry) z w \<longleftrightarrow>
       same_set ds z w \<or> (same_set ds z x \<and> same_set ds y w) \<or> (same_set ds z y \<and> same_set ds x w)" for z w
      unfolding same_set_link_roots[OF f2 fx False] s2 same_set_root[OF r(1)] same_set_root[OF r(2)]
      by blast
    then show ?thesis
      using that[of True "link_roots ds2 rx ry"] 2(3) False forest_inv_link_roots[OF f2 fx False] xy
      by simp
  qed
qed

lemma new_fold:
  "parent_get (fold (\<lambda>e ds. rank_set e (Num 0) (parent_set e e ds)) es ds) x =
     (if x \<in> set es then x else parent_get ds x)"
  "rank (fold (\<lambda>e ds. rank_set e (Num 0) (parent_set e e ds)) es ds) x =
     (if x \<in> set es then Some (Num 0) else rank ds x)"
  by (induction es arbitrary: ds)
     (auto simp: parent_get_parent_set parent_get_rank_set rank_parent_set rank_rank_set)

lemma parent_get_new:
  "parent_get (DisjointSet_new vs) x = (if x \<in> set vs then x else Undefined)"
  by (simp add: DisjointSet_new_def new_fold) (simp add: parent_get_def)


lemma root_of_new:
  "root_of (parent_get (DisjointSet_new vs)) x r \<longleftrightarrow> r = (if x \<in> set vs then x else Undefined)"
proof -
  let ?p = "parent_get (DisjointSet_new vs)"
  have u: "root_of ?p Undefined Undefined"
    by (rule root_of.at_root) (simp add: parent_get_new)
  have "root_of ?p x (if x \<in> set vs then x else Undefined)"
  proof (cases "?p x = x")
    case True
    then show ?thesis by (auto simp: parent_get_new intro: root_of.at_root split: if_splits)
  next
    case False
    then have "?p x = Undefined" "x \<notin> set vs" by (auto simp: parent_get_new split: if_splits)
    then show ?thesis using u False by (auto intro: root_of.via_parent)
  qed
  then show ?thesis by (auto dest: root_of_unique)
qed

lemma forest_inv_new: "forest_inv (DisjointSet_new vs)"
  by (simp add: forest_inv_def root_of_new)

lemma scan_edges_total:
  "forest_inv ds \<Longrightarrow> \<exists>r. scan_edges ds es mst cost = Some r"
proof (induction es arbitrary: ds mst cost)
  case Nil
  show ?case by simp
next
  case (Cons e es)
  from Cons.prems obtain b ds' where
    "DisjointSet_union ds (u e) (v e) = Some (b, ds')" "forest_inv ds'"
    by (rule union_spec) blast
  then show ?case using Cons.IH[of ds'] by (cases b) simp_all
qed

lemma kruskalMST_returns: "\<exists>r. kruskalMST vertices edges = Some r"
  unfolding kruskalMST_def by (rule scan_edges_total) (rule forest_inv_new)

section \<open>The scan over the edges, the running sum and the call depth\<close>

lemmas eval_simps = Let_def DisjointSet_new_def DisjointSet_union_def find_root find_step
  parent_get_def parent_set_def rank_set_def

lemma find_again:
  assumes "root_of (parent_get ds) x r" "DisjointSet_find ds x = Some (r, ds')"
  shows "DisjointSet_find ds' x = Some (r, ds')"
proof -
  from assms(1) obtain ds1 where 1: "DisjointSet_find ds x = Some (r, ds1)"
    "\<And>z q. root_of (parent_get ds1) z q \<longleftrightarrow> root_of (parent_get ds) z q"
    "x \<noteq> r \<Longrightarrow> parent ds1 x = Some r" "x = r \<Longrightarrow> ds1 = ds"
    by (rule find_keeps_roots) blast
  from 1(1) assms(2) have e: "ds1 = ds'" by simp
  have rr: "parent_get ds' r = r" using assms(1) 1(2) e by (auto dest: root_of_fixed)
  show ?thesis
  proof (cases "x = r")
    case True
    then show ?thesis using rr by (simp add: find_root)
  next
    case False
    then have p: "parent ds' x = Some r" using 1(3) e by simp
    then have "parent_get ds' x = r" by (simp add: parent_get_def)
    moreover have "parent_set x r ds' = ds'" using p by (simp add: parent_set_def fun_upd_idem)
    ultimately show ?thesis using False rr by (simp add: find_step find_root)
  qed
qed

lemma scan_edges_rule:
  assumes "forest_inv ds" "P ds mst"
    and step: "\<And>ds e b ds' mst. forest_inv ds \<Longrightarrow> P ds mst \<Longrightarrow> e \<in> set es \<Longrightarrow>
       DisjointSet_union ds (u e) (v e) = Some (b, ds') \<Longrightarrow> forest_inv ds' \<Longrightarrow>
       P ds' (if b then mst @ [e] else mst)"
  shows "\<exists>res ds'. scan_edges ds es mst c = Some res \<and> P ds' (mstEdges res)"
  using assms
proof (induction es arbitrary: ds mst c)
  case Nil
  then show ?case by auto
next
  case (Cons e es)
  from Cons.prems(1) obtain b ds' where
    un: "DisjointSet_union ds (u e) (v e) = Some (b, ds')" and f: "forest_inv ds'"
    by (rule union_spec) blast
  have P': "P ds' (if b then mst @ [e] else mst)"
    using Cons.prems(3)[OF Cons.prems(1,2) _ un f] by simp
  have st: "\<And>ds e b ds' mst. forest_inv ds \<Longrightarrow> P ds mst \<Longrightarrow> e \<in> set es \<Longrightarrow>
       DisjointSet_union ds (u e) (v e) = Some (b, ds') \<Longrightarrow> forest_inv ds' \<Longrightarrow>
       P ds' (if b then mst @ [e] else mst)"
    using Cons.prems(3) by simp
  show ?case
  proof (cases b)
    case True
    with Cons.IH[of ds' "mst @ [e]", OF f _ st] P' un show ?thesis by simp
  next
    case False
    with Cons.IH[of ds' mst, OF f _ st] P' un show ?thesis by simp
  qed
qed

lemma js_sum_snoc: "js_sum (es @ [e]) = js_add (js_sum es) (to_number (weight e))"
  by (simp add: js_sum_def)




lemma to_number_numeric: "numeric e \<Longrightarrow> to_number (weight e) = Num (weight_int e)"
  by (auto simp: numeric_def weight_int_def)

lemma js_sum_numeric: "\<forall>e\<in>set es. numeric e \<Longrightarrow> js_sum es = Num (cost_of es)"
proof (induction es rule: rev_induct)
  case Nil
  show ?case by (simp add: js_sum_def cost_of_def)
next
  case (snoc e es)
  then show ?case by (simp add: js_sum_snoc cost_of_def to_number_numeric)
qed









section \<open>Facts behind the properties of the disjoint-set forest\<close>

lemma root_of_via: "p x = y \<Longrightarrow> y \<noteq> x \<Longrightarrow> root_of p y r \<Longrightarrow> root_of p x r"
  by (auto intro: root_of.via_parent)


lemma four_steps:
  "DisjointSet_union four (Str ''A'') (Str ''B'') = Some (True, four_1)"
  "DisjointSet_union four_1 (Str ''C'') (Str ''D'') = Some (True, four_2)"
  "DisjointSet_union four_2 (Str ''B'') (Str ''D'') = Some (True, four_3)"
  "DisjointSet_union four_3 (Str ''D'') (Str ''D'') = Some (False, four_4)"
  by (simp_all add: four_def four_1_def four_2_def four_3_def four_4_def eval_simps fun_eq_iff)

lemma root_of_four_3: "root_of (parent_get four_3) (Str ''D'') (Str ''A'')"
proof -
  have "root_of (parent_get four_3) (Str ''A'') (Str ''A'')"
    by (rule root_of.at_root) (simp add: four_3_def parent_get_def)
  then have "root_of (parent_get four_3) (Str ''C'') (Str ''A'')"
    by (rule root_of_via[rotated 2]) (simp_all add: four_3_def parent_get_def)
  then show ?thesis
    by (rule root_of_via[rotated 2]) (simp_all add: four_3_def parent_get_def)
qed

lemma union_same:
  assumes "root_of (parent_get ds) x r"
  shows "\<exists>ds'. DisjointSet_union ds x x = Some (False, ds') \<and> rank ds' = rank ds \<and>
     (\<forall>z q. root_of (parent_get ds') z q \<longleftrightarrow> root_of (parent_get ds) z q)"
proof -
  from assms assms obtain ds2 where "rank ds2 = rank ds"
    "\<And>z q. root_of (parent_get ds2) z q \<longleftrightarrow> root_of (parent_get ds) z q"
    "DisjointSet_union ds x x = (if r = r then Some (False, ds2) else Some (True, link_roots ds2 r r))"
    by (rule union_result) blast
  then show ?thesis by simp
qed

lemma no_self_loop_selected:
  assumes "kruskalMST vs es = Some res" "e \<in> set (mstEdges res)"
  shows "u e \<noteq> v e"
proof -
  let ?P = "\<lambda>(ds::DisjointSet) (mst::edge list). \<forall>e\<in>set mst. u e \<noteq> v e"
  have "\<exists>res ds'. scan_edges (DisjointSet_new vs) (js_sort compareFn es) [] (Num 0) = Some res \<and>
          ?P ds' (mstEdges res)"
  proof (rule scan_edges_rule[where P = ?P])
    show "forest_inv (DisjointSet_new vs)" by (rule forest_inv_new)
    show "?P (DisjointSet_new vs) []" by simp
  next
    fix ds b ds' and e :: edge and mst :: "edge list"
    assume f: "forest_inv ds" and P: "?P ds mst"
      and un: "DisjointSet_union ds (u e) (v e) = Some (b, ds')"
    from f obtain b' ds'' where "DisjointSet_union ds (u e) (v e) = Some (b', ds'')"
      "b' \<longleftrightarrow> \<not> same_set ds (u e) (v e)"
      by (rule union_spec) blast
    with un have "b \<longleftrightarrow> \<not> same_set ds (u e) (v e)" by simp
    then have "b \<Longrightarrow> u e \<noteq> v e" using same_set_refl[OF f] by auto
    then show "?P ds' (if b then mst @ [e] else mst)" using P by auto
  qed
  then show ?thesis using assms by (auto simp: kruskalMST_def)
qed

lemmas kruskal_eval = kruskalMST_def js_sort_def compareFn_def edge_of_def eval_simps











lemma mset_sort_insert: "mset (sort_insert cmp x ys) = add_mset x (mset ys)"
  by (induction ys) simp_all

lemma mset_js_sort: "mset (js_sort cmp xs) = mset xs"
  by (induction xs) (simp_all add: js_sort_def mset_sort_insert)

lemma set_js_sort: "set (js_sort cmp xs) = set xs"
  using mset_js_sort[of cmp xs] by (metis set_mset_mset)

lemma js_positive_compareFn:
  "numeric x \<Longrightarrow> numeric y \<Longrightarrow> js_positive (compareFn x y) \<longleftrightarrow> \<not> weight_int x \<le> weight_int y"
  by (auto simp: compareFn_def to_number_numeric)

lemma sort_insert_insort:
  "numeric x \<Longrightarrow> \<forall>y\<in>set ys. numeric y \<Longrightarrow>
   sort_insert compareFn x ys = insort_key weight_int x ys"
  by (induction ys) (simp_all add: js_positive_compareFn)

lemma js_sort_sort_key:
  "\<forall>e\<in>set es. numeric e \<Longrightarrow> js_sort compareFn es = sort_key weight_int es"
proof (induction es)
  case Nil
  show ?case by (simp add: js_sort_def)
next
  case (Cons e es)
  then have "js_sort compareFn es = sort_key weight_int es" by simp
  moreover have "\<forall>y\<in>set (sort_key weight_int es). numeric y" using Cons.prems by simp
  ultimately show ?case using Cons.prems
    by (simp add: js_sort_def sort_insert_insort)
qed

section \<open>The properties of the specification\<close>

text \<open>
  C10. \<open>kruskalMST\<close> is total at its interface: for every list of vertices and every list
  of edges (empty lists, self-loops, duplicate vertices, edges whose endpoints were never
  registered, any weights) the computation ends and returns a result object. The code has
  no \<open>throw\<close>, so the only way not to return would be a \<open>find\<close> that runs forever, which
  is the value \<open>None\<close>.
\<close>

theorem kruskalMST_total: "\<exists>r. kruskalMST vertices edges = Some r"
  by (rule kruskalMST_returns)

text \<open>
  C9. Path compression changes the representation only. For every state and every vertex
  \<open>x\<close> whose chain of parents ends at a root \<open>r\<close>, \<open>find(x)\<close> returns \<open>r\<close>; in the state it
  leaves behind every vertex has the root it had before, so the partition into sets is the
  same, and the ranks are the same; a second \<open>find(x)\<close> returns \<open>r\<close> again and changes
  nothing.
\<close>

theorem find_keeps_partition:
  "root_of (parent_get ds) x r \<Longrightarrow>
   \<exists>ds'. DisjointSet_find ds x = Some (r, ds') \<and>
     (\<forall>y q. root_of (parent_get ds') y q \<longleftrightarrow> root_of (parent_get ds) y q) \<and>
     (\<forall>a b. same_set ds' a b \<longleftrightarrow> same_set ds a b) \<and>
     rank ds' = rank ds \<and>
     DisjointSet_find ds' x = Some (r, ds')"
proof -
  assume a: "root_of (parent_get ds) x r"
  then obtain ds' where 1: "DisjointSet_find ds x = Some (r, ds')" "rank ds' = rank ds"
    "\<And>z q. root_of (parent_get ds') z q \<longleftrightarrow> root_of (parent_get ds) z q"
    by (rule find_keeps_roots) blast
  have "same_set ds' = same_set ds" using 1(3) by (rule same_set_cong)
  moreover have "DisjointSet_find ds' x = Some (r, ds')" using a 1(1) by (rule find_again)
  ultimately show ?thesis using 1 by simp
qed

text \<open>The theorem at a concrete input.\<close>

theorem find_keeps_partition_witness:
  "root_of (parent_get four_3) (Str ''D'') (Str ''A'') \<and>
   (\<exists>ds'. DisjointSet_find four_3 (Str ''D'') = Some (Str ''A'', ds') \<and>
     (\<forall>y q. root_of (parent_get ds') y q \<longleftrightarrow> root_of (parent_get four_3) y q) \<and>
     (\<forall>a b. same_set ds' a b \<longleftrightarrow> same_set four_3 a b) \<and>
     rank ds' = rank four_3 \<and>
     DisjointSet_find ds' (Str ''D'') = Some (Str ''A'', ds'))"
proof -
  have h: "root_of (parent_get four_3) (Str ''D'') (Str ''A'')"
  proof -
    have "root_of (parent_get four_3) (Str ''A'') (Str ''A'')"
      by (rule root_of.at_root) (simp add: four_3_def parent_get_def)
    then have "root_of (parent_get four_3) (Str ''C'') (Str ''A'')"
      by (rule root_of_via[rotated 2]) (simp_all add: four_3_def parent_get_def)
    then show ?thesis
      by (rule root_of_via[rotated 2]) (simp_all add: four_3_def parent_get_def)
  qed
  show ?thesis using h find_keeps_partition[OF h] by simp
qed

text \<open>
  C7, as the code has it. \<open>union(x, x)\<close> returns \<open>false\<close>, leaves every rank unchanged and
  leaves every vertex with the root it had, so the partition is unchanged; and no edge
  with \<open>u = v\<close> is among the \<open>mstEdges\<close> of \<open>kruskalMST\<close>. The parent links are not
  left unchanged: the two calls of \<open>find\<close> compress the path from \<open>x\<close> to its root, as the
  state \<open>four_3\<close> shows, where \<open>union(D, D)\<close> moves the parent of \<open>D\<close> from \<open>C\<close> to \<open>A\<close>.
\<close>

theorem union_self:
  "(root_of (parent_get ds) x r \<longrightarrow>
     (\<exists>ds'. DisjointSet_union ds x x = Some (False, ds') \<and> rank ds' = rank ds \<and>
        (\<forall>z q. root_of (parent_get ds') z q \<longleftrightarrow> root_of (parent_get ds) z q) \<and>
        (\<forall>a b. same_set ds' a b \<longleftrightarrow> same_set ds a b))) \<and>
   (kruskalMST vertices edges = Some res \<longrightarrow> (\<forall>e\<in>set (mstEdges res). u e \<noteq> v e))"
proof (intro conjI impI ballI)
  assume "root_of (parent_get ds) x r"
  then obtain ds' where 1: "DisjointSet_union ds x x = Some (False, ds')" "rank ds' = rank ds"
    "\<And>z q. root_of (parent_get ds') z q \<longleftrightarrow> root_of (parent_get ds) z q"
    using union_same by blast
  have "same_set ds' = same_set ds" using 1(3) by (rule same_set_cong)
  then show "\<exists>ds'. DisjointSet_union ds x x = Some (False, ds') \<and> rank ds' = rank ds \<and>
        (\<forall>z q. root_of (parent_get ds') z q \<longleftrightarrow> root_of (parent_get ds) z q) \<and>
        (\<forall>a b. same_set ds' a b \<longleftrightarrow> same_set ds a b)"
    using 1 by simp
next
  fix e
  assume "kruskalMST vertices edges = Some res" "e \<in> set (mstEdges res)"
  then show "u e \<noteq> v e" by (rule no_self_loop_selected)
qed

text \<open>The theorem at a concrete input.\<close>

theorem union_self_witness:
  "root_of (parent_get four_3) (Str ''D'') (Str ''A'') \<and>
   (\<exists>ds'. DisjointSet_union four_3 (Str ''D'') (Str ''D'') = Some (False, ds') \<and>
      rank ds' = rank four_3 \<and>
      (\<forall>z q. root_of (parent_get ds') z q \<longleftrightarrow> root_of (parent_get four_3) z q) \<and>
      (\<forall>a b. same_set ds' a b \<longleftrightarrow> same_set four_3 a b)) \<and>
   kruskalMST [Str ''A'', Str ''B''] [edge_of ''A'' ''A'' 1, edge_of ''A'' ''B'' 2] =
     Some \<lparr>mstEdges = [edge_of ''A'' ''B'' 2], totalCost = Num 2\<rparr> \<and>
   u (edge_of ''A'' ''B'' 2) \<noteq> v (edge_of ''A'' ''B'' 2)"
proof -
  have k: "kruskalMST [Str ''A'', Str ''B''] [edge_of ''A'' ''A'' 1, edge_of ''A'' ''B'' 2] =
     Some \<lparr>mstEdges = [edge_of ''A'' ''B'' 2], totalCost = Num 2\<rparr>"
    by (simp add: kruskal_eval)
  show ?thesis
    using union_self[of four_3 "Str ''D''" "Str ''A''" "[Str ''A'', Str ''B'']"
        "[edge_of ''A'' ''A'' 1, edge_of ''A'' ''B'' 2]"
        "\<lparr>mstEdges = [edge_of ''A'' ''B'' 2], totalCost = Num 2\<rparr>"]
      root_of_four_3 k by simp
qed

text \<open>The claim as the specification states it fails at this input.\<close>

theorem union_self_rewrites_parent:
  "DisjointSet_union four (Str ''A'') (Str ''B'') = Some (True, four_1) \<and>
   DisjointSet_union four_1 (Str ''C'') (Str ''D'') = Some (True, four_2) \<and>
   DisjointSet_union four_2 (Str ''B'') (Str ''D'') = Some (True, four_3) \<and>
   DisjointSet_union four_3 (Str ''D'') (Str ''D'') = Some (False, four_4) \<and>
   parent four_3 (Str ''D'') = Some (Str ''C'') \<and>
   parent four_4 (Str ''D'') = Some (Str ''A'')"
  by (simp add: four_steps) (simp add: four_3_def four_4_def)













end
